theory Spec2Isabelle
  imports Main "HOL-Library.AList" "HOL-Library.Multiset"
begin

section \<open>The data model of \<^verbatim>\<open>cash_flow.py\<close>\<close>

text \<open>
  Parties are opaque identifiers (type \<open>'p\<close>; strings in the program's own test cases).
  Amounts are Python integers, modelled as \<open>int\<close>.

  A Python \<^verbatim>\<open>dict\<close> keeps its keys in insertion order, and both loops of
  \<^verbatim>\<open>optimize_transactions_floyd_warshall\<close> depend on that order. A dictionary is therefore
  an association list: \<open>map_of\<close> reads a key, \<open>AList.update\<close> overwrites the value of a
  present key in place and appends an absent key at the end, as assignment to a
  \<^verbatim>\<open>dict\<close> entry does.
\<close>

type_synonym 'p adjacency = "('p \<times> int) list"

text \<open>
  \<^verbatim>\<open>nx.DiGraph\<close> stores its successors as a dictionary of dictionaries: one entry per
  node, in the order the nodes were added, holding the node's out-edges in the order they
  were added. The attribute dictionary of an edge only ever holds \<^verbatim>\<open>'weight'\<close>, so an edge
  carries its weight directly. The class \<^verbatim>\<open>CashFlowGraph\<close> has the single attribute
  \<^verbatim>\<open>self.graph\<close>; an object is modelled by the value of that attribute.
\<close>

type_synonym 'p digraph = "('p \<times> 'p adjacency) list"

type_synonym 'p obligation = "'p \<times> 'p \<times> int"

definition DiGraph :: "'p digraph" where
  "DiGraph = []"

definition has_edge :: "'p digraph \<Rightarrow> 'p \<Rightarrow> 'p \<Rightarrow> bool" where
  "has_edge g u v =
     (case map_of g u of None \<Rightarrow> False | Some nbrs \<Rightarrow> map_of nbrs v \<noteq> None)"

definition add_node :: "'p digraph \<Rightarrow> 'p \<Rightarrow> 'p digraph" where
  "add_node g u = (if map_of g u = None then g @ [(u, [])] else g)"

text \<open>
  \<^verbatim>\<open>add_edge(u, v, weight=w)\<close> adds the node \<open>u\<close>, then the node \<open>v\<close>, when they are
  new, and sets the weight of the edge, overwriting the weight of an edge that is there.
\<close>

definition add_edge :: "'p digraph \<Rightarrow> 'p \<Rightarrow> 'p \<Rightarrow> int \<Rightarrow> 'p digraph" where
  "add_edge g u v w =
     AList.map_entry u (AList.update v w) (add_node (add_node g u) v)"

text \<open>\<^verbatim>\<open>graph.edges(data=True)\<close>: the out-edges of each node, node after node.\<close>

definition edges :: "'p digraph \<Rightarrow> 'p obligation list" where
  "edges g = concat (map (\<lambda>(u, nbrs). map (\<lambda>(v, w). (u, v, w)) nbrs) g)"

text \<open>\<^verbatim>\<open>dict.get(k, default)\<close>.\<close>

definition get :: "('k \<times> 'v) list \<Rightarrow> 'k \<Rightarrow> 'v \<Rightarrow> 'v" where
  "get d k dflt = (case map_of d k of None \<Rightarrow> dflt | Some x \<Rightarrow> x)"

section \<open>\<^verbatim>\<open>CashFlowGraph.add_transaction\<close>\<close>

definition add_transaction :: "'p digraph \<Rightarrow> 'p \<Rightarrow> 'p \<Rightarrow> int \<Rightarrow> 'p digraph" where
  "add_transaction g payer payee amount =
     (if has_edge g payer payee
      then AList.map_entry payer (AList.map_entry payee (\<lambda>weight. weight + amount)) g
      else add_edge g payer payee amount)"

text \<open>
  The callers build a graph from a list of transactions with
  \<^verbatim>\<open>graph = CashFlowGraph(); for p, q, a in transactions: graph.add_transaction(p, q, a)\<close>
  (the test cases and the spreadsheet upload; the manual entry form first drops the rows
  with an empty party or a zero amount, and its widgets only let amounts from 1 through).
\<close>

definition aggregate :: "'p obligation list \<Rightarrow> 'p digraph" where
  "aggregate transactions =
     foldl (\<lambda>g (p, q, a). add_transaction g p q a) DiGraph transactions"

text \<open>The ledger a graph stands for: the weight of each ordered pair that has an edge.\<close>

definition ledger :: "'p digraph \<Rightarrow> 'p \<times> 'p \<Rightarrow> int option" where
  "ledger g = (\<lambda>(u, v). case map_of g u of None \<Rightarrow> None | Some nbrs \<Rightarrow> map_of nbrs v)"

section \<open>\<^verbatim>\<open>CashFlowGraph.optimize_transactions_floyd_warshall\<close>\<close>

subsection \<open>Net balances (the first loop)\<close>

definition balance_step :: "('p \<times> int) list \<Rightarrow> 'p obligation \<Rightarrow> ('p \<times> int) list" where
  "balance_step balance e =
     (case e of (u, v, amount) \<Rightarrow>
        let balance1 = AList.update u (get balance u 0 - amount) balance
        in AList.update v (get balance1 v 0 + amount) balance1)"

definition derive_balances :: "'p digraph \<Rightarrow> ('p \<times> int) list" where
  "derive_balances g = foldl balance_step [] (edges g)"

subsection \<open>Debtors and creditors (the second loop)\<close>

definition partition_step ::
  "('p \<times> int) list \<times> ('p \<times> int) list \<Rightarrow> 'p \<times> int \<Rightarrow> ('p \<times> int) list \<times> ('p \<times> int) list"
where
  "partition_step dc e =
     (case (dc, e) of ((debtors, creditors), (person, amt)) \<Rightarrow>
        if amt < 0 then (debtors @ [(person, - amt)], creditors)
        else if amt > 0 then (debtors, creditors @ [(person, amt)])
        else (debtors, creditors))"

definition partition_balances ::
  "('p \<times> int) list \<Rightarrow> ('p \<times> int) list \<times> ('p \<times> int) list"
where
  "partition_balances balance = foldl partition_step ([], []) balance"

subsection \<open>The matching loop\<close>

text \<open>
  The state of the \<^verbatim>\<open>while\<close> loop: the cursors \<open>i\<close> and \<open>j\<close>, the two queues, which
  the loop updates at the cursors, and the graph under construction.
\<close>

type_synonym 'p loop_state =
  "nat \<times> nat \<times> ('p \<times> int) list \<times> ('p \<times> int) list \<times> 'p digraph"

definition loop_cond :: "'p loop_state \<Rightarrow> bool" where
  "loop_cond s =
     (case s of (i, j, debtors, creditors, g) \<Rightarrow> i < length debtors \<and> j < length creditors)"

text \<open>One pass through the body of the loop (lines 35 to 50).\<close>

definition matching_step :: "'p loop_state \<Rightarrow> 'p loop_state" where
  "matching_step s =
     (case s of (i, j, debtors, creditors, g) \<Rightarrow>
        case (debtors ! i, creditors ! j) of ((debtor, debt_amt), (creditor, credit_amt)) \<Rightarrow>
          let trans_amt = min debt_amt credit_amt;
              g' = add_edge g debtor creditor trans_amt;
              debt_amt' = debt_amt - trans_amt;
              credit_amt' = credit_amt - trans_amt;
              (i', debtors') =
                 (if debt_amt' = 0 then (i + 1, debtors)
                  else (i, debtors[i := (debtor, debt_amt')]));
              (j', creditors') =
                 (if credit_amt' = 0 then (j + 1, creditors)
                  else (j, creditors[j := (creditor, credit_amt')]))
          in (i', j', debtors', creditors', g'))"

definition remaining :: "'p loop_state \<Rightarrow> nat" where
  "remaining s =
     (case s of (i, j, debtors, creditors, g) \<Rightarrow>
        (length debtors - i) + (length creditors - j))"

function matching_loop :: "'p loop_state \<Rightarrow> 'p loop_state" where
  "matching_loop s = (if loop_cond s then matching_loop (matching_step s) else s)"
  by pat_completeness auto
termination
  by (relation "measure remaining")
     (auto simp: loop_cond_def matching_step_def remaining_def Let_def min_def
           split: prod.splits)

declare matching_loop.simps [simp del]

text \<open>The settlement of a balance map: lines 24 to 50, from the empty graph of line 32.\<close>

definition settle :: "('p \<times> int) list \<Rightarrow> 'p loop_state" where
  "settle balance =
     (case partition_balances balance of (debtors, creditors) \<Rightarrow>
        matching_loop (0, 0, debtors, creditors, DiGraph))"

definition graph_of :: "'p loop_state \<Rightarrow> 'p digraph" where
  "graph_of s = (case s of (i, j, debtors, creditors, g) \<Rightarrow> g)"

definition optimize_transactions_floyd_warshall :: "'p digraph \<Rightarrow> 'p digraph" where
  "optimize_transactions_floyd_warshall g = graph_of (settle (derive_balances g))"

section \<open>Observations used to state the properties\<close>

text \<open>What a party receives and pays over the edges of a graph, and its net position.\<close>

definition inflow :: "'p digraph \<Rightarrow> 'p \<Rightarrow> int" where
  "inflow g p = sum_list (map (\<lambda>(u, v, w). w) (filter (\<lambda>(u, v, w). v = p) (edges g)))"

definition outflow :: "'p digraph \<Rightarrow> 'p \<Rightarrow> int" where
  "outflow g p = sum_list (map (\<lambda>(u, v, w). w) (filter (\<lambda>(u, v, w). u = p) (edges g)))"

definition net_position :: "'p digraph \<Rightarrow> 'p \<Rightarrow> int" where
  "net_position g p = inflow g p - outflow g p"

text \<open>The parties of a list of obligations or edges, in the order of their first appearance
  (the payer of an entry before its payee).\<close>

definition note_party :: "'p list \<Rightarrow> 'p \<Rightarrow> 'p list" where
  "note_party seen p = (if p \<in> set seen then seen else seen @ [p])"

definition first_appearance :: "'p obligation list \<Rightarrow> 'p list" where
  "first_appearance obs = foldl note_party [] (concat (map (\<lambda>(u, v, w). [u, v]) obs))"

text \<open>A queue is in the order of a list of parties when its parties are the sublist of
  that list.\<close>

definition ordered_as :: "'p list \<Rightarrow> ('p \<times> int) list \<Rightarrow> bool" where
  "ordered_as order queue = (map fst queue = filter (\<lambda>p. p \<in> set (map fst queue)) order)"

text \<open>The amount a list of obligations accumulates on an ordered pair, and the pairs it
  mentions.\<close>

definition accumulated :: "'p obligation list \<Rightarrow> 'p \<times> 'p \<Rightarrow> int" where
  "accumulated obs k = sum_list (map (\<lambda>(p, q, a). a) (filter (\<lambda>(p, q, a). (p, q) = k) obs))"

definition pairs :: "'p obligation list \<Rightarrow> ('p \<times> 'p) list" where
  "pairs obs = map (\<lambda>(p, q, a). (p, q)) obs"

text \<open>The amount a queue holds for a party.\<close>

definition owed :: "('p \<times> int) list \<Rightarrow> 'p \<Rightarrow> int" where
  "owed xs p = sum_list (map snd (filter (\<lambda>e. fst e = p) xs))"

text \<open>The part of each queue the loop has still to match: the entries at and after the
  cursors.\<close>

definition rest_debtors :: "'p loop_state \<Rightarrow> ('p \<times> int) list" where
  "rest_debtors s = (case s of (i, j, debtors, creditors, g) \<Rightarrow> drop i debtors)"

definition rest_creditors :: "'p loop_state \<Rightarrow> ('p \<times> int) list" where
  "rest_creditors s = (case s of (i, j, debtors, creditors, g) \<Rightarrow> drop j creditors)"

text \<open>The loop has exhausted both queues when each cursor is at the end of its queue; the
  cursors never pass the end.\<close>

definition exhausted :: "'p loop_state \<Rightarrow> bool" where
  "exhausted s =
     (case s of (i, j, debtors, creditors, g) \<Rightarrow> i = length debtors \<and> j = length creditors)"

definition cursors_in_range :: "'p loop_state \<Rightarrow> bool" where
  "cursors_in_range s =
     (case s of (i, j, debtors, creditors, g) \<Rightarrow> i \<le> length debtors \<and> j \<le> length creditors)"

text \<open>The invariant of the matching loop: the amounts still to match are positive, no party
  is twice in the rest of a queue, and the graph has no edge yet between a debtor and a
  creditor that are both still to match.\<close>

definition wf_queues :: "'p loop_state \<Rightarrow> bool" where
  "wf_queues s \<longleftrightarrow>
     (\<forall>e \<in> set (rest_debtors s). 0 < snd e) \<and>
     (\<forall>e \<in> set (rest_creditors s). 0 < snd e) \<and>
     distinct (map fst (rest_debtors s)) \<and>
     distinct (map fst (rest_creditors s)) \<and>
     (\<forall>u v. has_edge (graph_of s) u v \<longrightarrow>
        u \<notin> fst ` set (rest_debtors s) \<or> v \<notin> fst ` set (rest_creditors s))"

text \<open>A bound on the passes the loop can still make, and the positivity of the amounts
  still to match.\<close>

definition transfers_left :: "'p loop_state \<Rightarrow> nat" where
  "transfers_left s =
     (if rest_debtors s \<noteq> [] \<and> rest_creditors s \<noteq> []
      then length (rest_debtors s) + length (rest_creditors s) - 1 else 0)"

definition positive_rests :: "'p loop_state \<Rightarrow> bool" where
  "positive_rests s \<longleftrightarrow>
     (\<forall>e \<in> set (rest_debtors s). 0 < snd e) \<and> (\<forall>e \<in> set (rest_creditors s). 0 < snd e)"

section \<open>The ledger built by aggregation\<close>

lemma map_of_add_node:
  "map_of (add_node g u) = (if map_of g u = None then (map_of g)(u \<mapsto> []) else map_of g)"
  by (auto simp: add_node_def fun_eq_iff map_add_def split: option.splits)

lemma ledger_add_node: "ledger (add_node g u) = ledger g"
  by (auto simp: ledger_def map_of_add_node fun_eq_iff split: option.splits)

lemma has_edge_ledger: "has_edge g u v \<longleftrightarrow> ledger g (u, v) \<noteq> None"
  by (auto simp: has_edge_def ledger_def split: option.splits)

lemma ledger_add_edge: "ledger (add_edge g u v w) = (ledger g)((u, v) \<mapsto> w)"
  by (auto simp: ledger_def add_edge_def map_of_map_entry map_of_add_node update_conv' fun_eq_iff
        split: option.splits)

lemma ledger_add_transaction:
  "ledger (add_transaction g u v a) =
     (ledger g)((u, v) \<mapsto> (case ledger g (u, v) of None \<Rightarrow> a | Some w \<Rightarrow> w + a))"
  by (auto simp: add_transaction_def ledger_add_edge has_edge_ledger)
     (auto simp: ledger_def map_of_map_entry fun_eq_iff split: option.splits)

lemma accumulated_absent: "k \<notin> set (pairs obs) \<Longrightarrow> accumulated obs k = 0"
  by (induction obs) (auto simp: accumulated_def pairs_def)

lemma accumulated_Cons:
  "accumulated ((p, q, a) # obs) k = (if (p, q) = k then a else 0) + accumulated obs k"
  by (simp add: accumulated_def)

lemma pairs_Cons: "pairs ((p, q, a) # obs) = (p, q) # pairs obs"
  by (simp add: pairs_def)

lemma ledger_foldl_add_transaction:
  "ledger (foldl (\<lambda>g (p, q, a). add_transaction g p q a) g obs) k =
     (if k \<in> set (pairs obs)
      then Some ((case ledger g k of None \<Rightarrow> 0 | Some w \<Rightarrow> w) + accumulated obs k)
      else ledger g k)"
proof (induction obs arbitrary: g)
  case Nil
  show ?case by (simp add: pairs_def)
next
  case (Cons ob obs)
  obtain p q a where ob: "ob = (p, q, a)" by (cases ob)
  let ?g1 = "add_transaction g p q a"
  have step: "ledger (foldl (\<lambda>g (p, q, a). add_transaction g p q a) g (ob # obs)) k =
      (if k \<in> set (pairs obs)
       then Some ((case ledger ?g1 k of None \<Rightarrow> 0 | Some w \<Rightarrow> w) + accumulated obs k)
       else ledger ?g1 k)"
    by (simp add: ob Cons.IH)
  show ?case
  proof (cases "k = (p, q)")
    case True
    then show ?thesis
      unfolding step
      by (cases "ledger g (p, q)")
         (simp_all add: ob ledger_add_transaction pairs_Cons accumulated_Cons accumulated_absent)
  next
    case False
    then show ?thesis
      unfolding step
      by (simp add: ob ledger_add_transaction pairs_Cons accumulated_Cons)
  qed
qed

lemma ledger_aggregate:
  "ledger (aggregate obs) k =
     (if k \<in> set (pairs obs) then Some (accumulated obs k) else None)"
  by (simp add: aggregate_def ledger_foldl_add_transaction DiGraph_def)
     (simp add: ledger_def)

lemma accumulated_mset:
  assumes h: "mset obs = mset obs'"
  shows "accumulated obs k = accumulated obs' k"
proof -
  let ?f = "\<lambda>(p, q, a). a :: int" and ?P = "\<lambda>(p, q, a). (p, q) = k"
  have "mset (map ?f (filter ?P obs)) = mset (map ?f (filter ?P obs'))"
    by (simp only: mset_map mset_filter h)
  then have "sum_mset (mset (map ?f (filter ?P obs))) = sum_mset (mset (map ?f (filter ?P obs')))"
    by (rule arg_cong)
  then show ?thesis
    unfolding accumulated_def sum_mset_sum_list .
qed

lemma pairs_mset: "mset obs = mset obs' \<Longrightarrow> set (pairs obs) = set (pairs obs')"
  unfolding pairs_def set_map by (drule mset_eq_setD) (rule arg_cong)

text \<open>
  Claim C3. Aggregation is additive and independent of the order of the obligations: the
  ledger of an aggregated list gives each ordered pair it mentions the sum of the amounts
  of its obligations and nothing to any other pair; two obligations on one pair aggregate
  to the graph of the single obligation carrying their sum, a graph with that one edge;
  and two lists that are permutations of each other aggregate to the same ledger.
\<close>

theorem aggregation_additive_order_independent:
  "ledger (aggregate obs) k = (if k \<in> set (pairs obs) then Some (accumulated obs k) else None)
   \<and> aggregate [(u, v, a), (u, v, b)] = aggregate [(u, v, a + b)]
   \<and> edges (aggregate [(u, v, a), (u, v, b)]) = [(u, v, a + b)]
   \<and> (mset obs = mset obs' \<longrightarrow> ledger (aggregate obs) = ledger (aggregate obs'))"
proof (intro conjI impI)
  show "ledger (aggregate obs) k = (if k \<in> set (pairs obs) then Some (accumulated obs k) else None)"
    by (rule ledger_aggregate)
  show "aggregate [(u, v, a), (u, v, b)] = aggregate [(u, v, a + b)]"
    by (simp add: aggregate_def add_transaction_def has_edge_def add_edge_def add_node_def
                  DiGraph_def)
  show "edges (aggregate [(u, v, a), (u, v, b)]) = [(u, v, a + b)]"
    by (simp add: aggregate_def add_transaction_def has_edge_def add_edge_def add_node_def
                  DiGraph_def edges_def)
next
  assume h: "mset obs = mset obs'"
  show "ledger (aggregate obs) = ledger (aggregate obs')"
    by (rule ext) (simp add: ledger_aggregate accumulated_mset [OF h] pairs_mset [OF h])
qed

theorem aggregation_witness:
  "mset [(''A'', ''B'', 10::int), (''C'', ''D'', 5), (''A'', ''B'', 7)] =
   mset [(''A'', ''B'', 7), (''A'', ''B'', 10), (''C'', ''D'', 5)] \<and>
   ledger (aggregate [(''A'', ''B'', 10), (''C'', ''D'', 5), (''A'', ''B'', 7)]) =
   ledger (aggregate [(''A'', ''B'', 7), (''A'', ''B'', 10), (''C'', ''D'', 5)])"
proof -
  have h: "mset [(''A'', ''B'', 10::int), (''C'', ''D'', 5), (''A'', ''B'', 7)] =
           mset [(''A'', ''B'', 7), (''A'', ''B'', 10), (''C'', ''D'', 5)]"
    by simp
  from aggregation_additive_order_independent
         [of "[(''A'', ''B'', 10), (''C'', ''D'', 5), (''A'', ''B'', 7)]" "(''A'', ''B'')"
             "''A''" "''B''" 1 2
             "[(''A'', ''B'', 7), (''A'', ''B'', 10), (''C'', ''D'', 5)]"]
  have "mset [(''A'', ''B'', 10::int), (''C'', ''D'', 5), (''A'', ''B'', 7)] =
           mset [(''A'', ''B'', 7), (''A'', ''B'', 10), (''C'', ''D'', 5)] \<longrightarrow>
        ledger (aggregate [(''A'', ''B'', 10), (''C'', ''D'', 5), (''A'', ''B'', 7)]) =
        ledger (aggregate [(''A'', ''B'', 7), (''A'', ''B'', 10), (''C'', ''D'', 5)])"
    by (elim conjE)
  then have "ledger (aggregate [(''A'', ''B'', 10), (''C'', ''D'', 5), (''A'', ''B'', 7)]) =
        ledger (aggregate [(''A'', ''B'', 7), (''A'', ''B'', 10), (''C'', ''D'', 5)])"
    using h by (rule mp)
  with h show ?thesis by (rule conjI)
qed

text \<open>
  Claim C4 (corrected). \<^verbatim>\<open>add_transaction\<close> validates nothing and raises nothing: whatever
  the amount, zero and negative amounts included, it is added to the weight of the edge
  from payer to payee, or recorded as the weight of a new edge.
\<close>

theorem add_transaction_records_any_amount:
  "ledger (add_transaction g payer payee amount) (payer, payee) =
     Some ((case ledger g (payer, payee) of None \<Rightarrow> 0 | Some w \<Rightarrow> w) + amount)"
  by (simp add: ledger_add_transaction split: option.splits)

text \<open>
  The claim as stated fails: an obligation of amount 0 and one of amount -5 enter the
  ledger as they are.
\<close>

theorem nonpositive_amount_recorded_counterexample:
  "edges (aggregate [(''A'', ''B'', 0)]) = [(''A'', ''B'', 0)] \<and>
   edges (aggregate [(''A'', ''B'', - 5)]) = [(''A'', ''B'', - 5)] \<and>
   ledger (aggregate [(''A'', ''B'', - 5)]) (''A'', ''B'') = Some (- 5)"
  by (simp add: aggregate_def add_transaction_def has_edge_def add_edge_def add_node_def
                DiGraph_def edges_def ledger_def)


section \<open>Derived balances\<close>

lemma sum_update:
  "sum_list (map snd (AList.update k v al)) = sum_list (map snd al) - get al k 0 + (v::int)"
  by (induction al) (auto simp: get_def)

lemma sum_balance_step:
  "sum_list (map snd (balance_step balance e)) = sum_list (map snd balance)"
  by (cases e) (simp add: balance_step_def Let_def sum_update get_def update_conv')

lemma sum_foldl_balance_step:
  "sum_list (map snd (foldl balance_step balance es)) = sum_list (map snd balance)"
  by (induction es arbitrary: balance) (simp_all add: sum_balance_step)

text \<open>
  Claim C1. The balances derived from the graph aggregated from any list of obligations
  sum to zero (positive amounts or not), as do the balances derived from any graph.
\<close>

theorem balances_sum_to_zero:
  "sum_list (map snd (derive_balances (aggregate obs))) = 0
   \<and> sum_list (map snd (derive_balances g)) = 0"
  by (simp add: derive_balances_def sum_foldl_balance_step)

lemma distinct_balance_step:
  "distinct (map fst balance) \<Longrightarrow> distinct (map fst (balance_step balance e))"
  by (cases e) (simp add: balance_step_def Let_def distinct_update)

lemma distinct_foldl_balance_step:
  "distinct (map fst balance) \<Longrightarrow> distinct (map fst (foldl balance_step balance es))"
  by (induction es arbitrary: balance) (simp_all add: distinct_balance_step)

lemma distinct_derive_balances: "distinct (map fst (derive_balances g))"
  by (simp add: derive_balances_def distinct_foldl_balance_step)

section \<open>The matching loop\<close>

lemma partition_foldl:
  "foldl partition_step (ds, cs) balance =
     (ds @ map (\<lambda>(p, a). (p, - a)) (filter (\<lambda>(p, a). a < 0) balance),
      cs @ filter (\<lambda>(p, a). 0 < a) balance)"
  by (induction balance arbitrary: ds cs) (auto simp: partition_step_def)

lemma partition_balances_eq:
  "partition_balances balance =
     (map (\<lambda>(p, a). (p, - a)) (filter (\<lambda>(p, a). a < 0) balance),
      filter (\<lambda>(p, a). 0 < a) balance)"
  by (simp add: partition_balances_def partition_foldl)

lemma loop_cond_rest: "loop_cond s \<longleftrightarrow> rest_debtors s \<noteq> [] \<and> rest_creditors s \<noteq> []"
  by (auto simp: loop_cond_def rest_debtors_def rest_creditors_def split: prod.splits)

lemma matching_step_rest:
  assumes "rest_debtors s = (d, da) # ds" and "rest_creditors s = (c, ca) # cs"
  shows "rest_debtors (matching_step s) = (if da \<le> ca then ds else (d, da - ca) # ds)"
    and "rest_creditors (matching_step s) = (if ca \<le> da then cs else (c, ca - da) # cs)"
    and "graph_of (matching_step s) = add_edge (graph_of s) d c (min da ca)"
proof -
  obtain i j D C g where s: "s = (i, j, D, C, g)" by (cases s)
  from assms have rD: "drop i D = (d, da) # ds" and rC: "drop j C = (c, ca) # cs"
    by (simp_all add: s rest_debtors_def rest_creditors_def)
  from rD have "drop i D \<noteq> []" by simp
  then have i: "i < length D" by simp
  from rC have "drop j C \<noteq> []" by simp
  then have j: "j < length C" by simp
  from assms have Di: "D ! i = (d, da)" and Cj: "C ! j = (c, ca)"
    and dD: "drop (Suc i) D = ds" and dC: "drop (Suc j) C = cs"
    using i j by (auto simp: s rest_debtors_def rest_creditors_def Cons_nth_drop_Suc [symmetric])
  show "rest_debtors (matching_step s) = (if da \<le> ca then ds else (d, da - ca) # ds)"
    using i dD by (auto simp: s matching_step_def rest_debtors_def Di Cj Let_def min_def
                     Cons_nth_drop_Suc [symmetric])
  show "rest_creditors (matching_step s) = (if ca \<le> da then cs else (c, ca - da) # cs)"
    using j dC by (auto simp: s matching_step_def rest_creditors_def Di Cj Let_def min_def
                     Cons_nth_drop_Suc [symmetric])
  show "graph_of (matching_step s) = add_edge (graph_of s) d c (min da ca)"
    by (auto simp: s matching_step_def graph_of_def Di Cj Let_def split: prod.splits)
qed

lemma matching_loop_rule:
  assumes "I s" and "\<And>s. I s \<Longrightarrow> loop_cond s \<Longrightarrow> I (matching_step s)"
  shows "I (matching_loop s) \<and> \<not> loop_cond (matching_loop s)"
  using assms(1)
proof (induction s rule: matching_loop.induct)
  case (1 s)
  show ?case
  proof (cases "loop_cond s")
    case True
    with 1 assms(2) show ?thesis by (simp add: matching_loop.simps [of s])
  next
    case False
    with 1 show ?thesis by (simp add: matching_loop.simps [of s])
  qed
qed


lemma edges_Cons: "edges ((n, nb) # g) = map (\<lambda>(v, w). (n, v, w)) nb @ edges g"
  by (simp add: edges_def)

lemma edges_Nil: "edges [] = []"
  by (simp add: edges_def)

lemma edges_append: "edges (g @ h) = edges g @ edges h"
  by (simp add: edges_def)

lemma edges_add_node: "edges (add_node g u) = edges g"
  by (simp add: add_node_def edges_append) (simp add: edges_def)

lemma inflow_Nil: "inflow [] p = 0"
  by (simp add: inflow_def edges_def)

lemma outflow_Nil: "outflow [] p = 0"
  by (simp add: outflow_def edges_def)

lemma inflow_Cons: "inflow ((n, nb) # g) p = owed nb p + inflow g p"
proof -
  have "sum_list (map (\<lambda>(u, v, w). w)
          (filter (\<lambda>(u, v, w). v = p) (map (\<lambda>(v, w). (n, v, w)) nb))) = owed nb p"
    by (induction nb) (auto simp: owed_def)
  then show ?thesis by (simp add: inflow_def edges_Cons)
qed

lemma outflow_Cons:
  "outflow ((n, nb) # g) p = (if n = p then sum_list (map snd nb) else 0) + outflow g p"
proof -
  have "sum_list (map (\<lambda>(u, v, w). w)
          (filter (\<lambda>(u, v, w). u = p) (map (\<lambda>(v, w). (n, v, w)) nb))) =
        (if n = p then sum_list (map snd nb) else 0)"
    by (induction nb) auto
  then show ?thesis by (simp add: outflow_def edges_Cons)
qed

lemma inflow_add_node: "inflow (add_node g u) p = inflow g p"
  by (simp add: inflow_def edges_add_node)

lemma outflow_add_node: "outflow (add_node g u) p = outflow g p"
  by (simp add: outflow_def edges_add_node)

lemma inflow_map_entry:
  "map_of g u = Some nb \<Longrightarrow>
   inflow (AList.map_entry u f g) p = inflow g p + owed (f nb) p - owed nb p"
proof (induction g)
  case Nil
  then show ?case by simp
next
  case (Cons e g)
  obtain n nb' where e: "e = (n, nb')" by (cases e)
  from Cons show ?case by (auto simp: e inflow_Cons)
qed

lemma outflow_map_entry:
  "map_of g u = Some nb \<Longrightarrow>
   outflow (AList.map_entry u f g) p =
     outflow g p + (if p = u then sum_list (map snd (f nb)) - sum_list (map snd nb) else 0)"
proof (induction g)
  case Nil
  then show ?case by simp
next
  case (Cons e g)
  obtain n nb' where e: "e = (n, nb')" by (cases e)
  from Cons show ?case by (auto simp: e outflow_Cons)
qed

lemma owed_update_absent:
  "map_of nb v = None \<Longrightarrow> owed (AList.update v w nb) p = owed nb p + (if p = v then w else 0)"
  by (induction nb) (auto simp: owed_def)

lemma total_update_absent:
  "map_of nb v = None \<Longrightarrow> sum_list (map snd (AList.update v w nb)) = sum_list (map snd nb) + (w::int)"
  by (induction nb) auto



lemma add_edge_fresh_adjacency:
  assumes "\<not> has_edge g u v"
  shows "\<exists>nb. map_of (add_node (add_node g u) v) u = Some nb \<and> map_of nb v = None"
  using assms by (auto simp: has_edge_def map_of_add_node split: option.splits)

lemma inflow_add_edge:
  assumes "\<not> has_edge g u v"
  shows "inflow (add_edge g u v w) p = inflow g p + (if p = v then w else 0)"
proof -
  from add_edge_fresh_adjacency [OF assms] obtain nb
    where nb: "map_of (add_node (add_node g u) v) u = Some nb" "map_of nb v = None" by blast
  show ?thesis
    unfolding add_edge_def inflow_map_entry [OF nb(1)] owed_update_absent [OF nb(2)]
    by (simp add: inflow_add_node)
qed

lemma outflow_add_edge:
  assumes "\<not> has_edge g u v"
  shows "outflow (add_edge g u v w) p = outflow g p + (if p = u then w else 0)"
proof -
  from add_edge_fresh_adjacency [OF assms] obtain nb
    where nb: "map_of (add_node (add_node g u) v) u = Some nb" "map_of nb v = None" by blast
  show ?thesis
    unfolding add_edge_def outflow_map_entry [OF nb(1)] total_update_absent [OF nb(2)]
    by (simp add: outflow_add_node)
qed

lemma has_edge_add_edge:
  "has_edge (add_edge g u v w) x y \<longleftrightarrow> has_edge g x y \<or> (x = u \<and> y = v)"
  by (auto simp: has_edge_ledger ledger_add_edge)



lemma owed_Cons: "owed ((q, a) # xs) p = (if q = p then a else 0) + owed xs p"
  by (simp add: owed_def)

lemma owed_Nil: "owed [] p = 0"
  by (simp add: owed_def)

lemma wf_queues_step:
  assumes wf: "wf_queues s" and lc: "loop_cond s"
  shows "wf_queues (matching_step s)"
proof -
  from lc obtain d da ds c ca cs
    where rd: "rest_debtors s = (d, da) # ds" and rc: "rest_creditors s = (c, ca) # cs"
    by (auto simp: loop_cond_rest neq_Nil_conv)
  note st = matching_step_rest [OF rd rc]
  let ?D = "fst ` set ds" and ?C = "fst ` set cs"
  from wf have pos: "0 < da" "0 < ca" "\<forall>e \<in> set ds. 0 < snd e" "\<forall>e \<in> set cs. 0 < snd e"
    and dist: "d \<notin> ?D" "distinct (map fst ds)" "c \<notin> ?C" "distinct (map fst cs)"
    by (simp_all add: wf_queues_def rd rc)
  from wf have fr: "\<And>u v. has_edge (graph_of s) u v \<Longrightarrow>
                      (u \<noteq> d \<and> u \<notin> ?D) \<or> (v \<noteq> c \<and> v \<notin> ?C)"
    by (simp add: wf_queues_def rd rc)
  have p1: "\<forall>e \<in> set (rest_debtors (matching_step s)). 0 < snd e"
    unfolding st using pos by simp
  have p2: "\<forall>e \<in> set (rest_creditors (matching_step s)). 0 < snd e"
    unfolding st using pos by simp
  have d1: "distinct (map fst (rest_debtors (matching_step s)))"
    unfolding st using dist by simp
  have d2: "distinct (map fst (rest_creditors (matching_step s)))"
    unfolding st using dist by simp
  have sub1: "fst ` set (rest_debtors (matching_step s)) \<subseteq> insert d ?D"
    unfolding st by auto
  have sub2: "fst ` set (rest_creditors (matching_step s)) \<subseteq> insert c ?C"
    unfolding st by auto
  have out: "d \<notin> fst ` set (rest_debtors (matching_step s)) \<or>
             c \<notin> fst ` set (rest_creditors (matching_step s))"
  proof (cases "da \<le> ca")
    case True
    then show ?thesis unfolding st using dist by simp
  next
    case False
    then show ?thesis unfolding st using dist by simp
  qed
  have f: "\<forall>u v. has_edge (graph_of (matching_step s)) u v \<longrightarrow>
             u \<notin> fst ` set (rest_debtors (matching_step s)) \<or>
             v \<notin> fst ` set (rest_creditors (matching_step s))"
  proof (intro allI impI)
    fix u v
    assume "has_edge (graph_of (matching_step s)) u v"
    then have "has_edge (graph_of s) u v \<or> (u = d \<and> v = c)"
      unfolding st has_edge_add_edge .
    then show "u \<notin> fst ` set (rest_debtors (matching_step s)) \<or>
               v \<notin> fst ` set (rest_creditors (matching_step s))"
    proof
      assume "has_edge (graph_of s) u v"
      from fr [OF this] sub1 sub2 show ?thesis by blast
    next
      assume "u = d \<and> v = c"
      with out show ?thesis by simp
    qed
  qed
  from p1 p2 d1 d2 f show ?thesis
    unfolding wf_queues_def by blast
qed

lemma net_position_step:
  assumes wf: "wf_queues s" and lc: "loop_cond s"
  shows "net_position (graph_of (matching_step s)) p
           + owed (rest_creditors (matching_step s)) p - owed (rest_debtors (matching_step s)) p
         = net_position (graph_of s) p + owed (rest_creditors s) p - owed (rest_debtors s) p"
proof -
  from lc obtain d da ds c ca cs
    where rd: "rest_debtors s = (d, da) # ds" and rc: "rest_creditors s = (c, ca) # cs"
    by (auto simp: loop_cond_rest neq_Nil_conv)
  note st = matching_step_rest [OF rd rc]
  from wf have "\<not> has_edge (graph_of s) d c"
    by (auto simp: wf_queues_def rd rc)
  then show ?thesis
    unfolding st rd rc net_position_def
    by (simp add: inflow_add_edge outflow_add_edge owed_Cons min_def)
qed

lemma residual_step:
  assumes lc: "loop_cond s"
  shows "sum_list (map snd (rest_creditors (matching_step s)))
           - sum_list (map snd (rest_debtors (matching_step s)))
         = sum_list (map snd (rest_creditors s)) - sum_list (map snd (rest_debtors s))"
proof -
  from lc obtain d da ds c ca cs
    where rd: "rest_debtors s = (d, da) # ds" and rc: "rest_creditors s = (c, ca) # cs"
    by (auto simp: loop_cond_rest neq_Nil_conv)
  note st = matching_step_rest [OF rd rc]
  show ?thesis
    unfolding st rd rc by simp
qed

lemma nonneg_total:
  "\<forall>e \<in> set xs. 0 < snd e \<Longrightarrow> 0 \<le> sum_list (map snd xs :: int list)"
  by (induction xs) auto

lemma positive_total:
  "\<forall>e \<in> set xs. 0 < snd e \<Longrightarrow> xs \<noteq> [] \<Longrightarrow> 0 < sum_list (map snd xs :: int list)"
  using nonneg_total [of "tl xs"] by (cases xs) (auto simp: add_pos_nonneg)

lemma rest_init:
  "rest_debtors (0, 0, D, C, g) = D" "rest_creditors (0, 0, D, C, g) = C"
  "graph_of (i, j, D, C, g) = g"
  by (simp_all add: rest_debtors_def rest_creditors_def graph_of_def)

lemma settle_eq:
  "settle balance =
     matching_loop (0, 0, fst (partition_balances balance), snd (partition_balances balance),
                    DiGraph)"
  by (simp add: settle_def split: prod.splits)

lemma has_edge_DiGraph: "\<not> has_edge DiGraph u v"
  by (simp add: has_edge_def DiGraph_def)

lemma net_position_DiGraph: "net_position DiGraph p = 0"
  by (simp add: net_position_def inflow_def outflow_def edges_def DiGraph_def)

lemma partition_positive:
  "\<forall>e \<in> set (fst (partition_balances balance)). 0 < snd e"
  "\<forall>e \<in> set (snd (partition_balances balance)). 0 < snd e"
  by (auto simp: partition_balances_eq)

lemma map_fst_debtors:
  "map fst (fst (partition_balances balance)) = map fst (filter (\<lambda>(p, a). a < 0) balance)"
  by (simp add: partition_balances_eq case_prod_unfold comp_def)

lemma partition_distinct:
  assumes "distinct (map fst balance)"
  shows "distinct (map fst (fst (partition_balances balance)))"
    and "distinct (map fst (snd (partition_balances balance)))"
  using assms by (simp_all add: map_fst_debtors distinct_map_filter) (simp add: partition_balances_eq distinct_map_filter)

lemma wf_queues_init:
  assumes "distinct (map fst balance)"
  shows "wf_queues (0, 0, fst (partition_balances balance), snd (partition_balances balance),
                    DiGraph)"
  unfolding wf_queues_def rest_init
  using partition_positive [of balance] partition_distinct [OF assms]
  by (simp add: has_edge_DiGraph)

lemma owed_partition:
  "owed (snd (partition_balances balance)) p - owed (fst (partition_balances balance)) p =
   owed balance p"
  unfolding partition_balances_eq fst_conv snd_conv
  by (induction balance) (auto simp: owed_def)

lemma total_partition:
  "sum_list (map snd (snd (partition_balances balance)))
     - sum_list (map snd (fst (partition_balances balance))) = sum_list (map snd balance)"
  unfolding partition_balances_eq fst_conv snd_conv
  by (induction balance) auto

lemma owed_absent: "p \<notin> fst ` set xs \<Longrightarrow> owed xs p = 0"
  by (induction xs) (auto simp: owed_def)

lemma owed_distinct: "distinct (map fst balance) \<Longrightarrow> owed balance p = get balance p 0"
  by (induction balance) (auto simp: owed_Cons owed_Nil get_def owed_absent)


lemma both_exhausted:
  assumes pd: "\<forall>e \<in> set rd. 0 < snd e" and pc: "\<forall>e \<in> set rc. 0 < snd e"
    and eq: "sum_list (map snd rc) - sum_list (map snd rd) = (0::int)"
    and stop: "rd = [] \<or> rc = []"
  shows "rd = [] \<and> rc = []"
proof -
  have "rd = []"
  proof (rule ccontr)
    assume ne: "rd \<noteq> []"
    with stop have "rc = []" by simp
    with eq positive_total [OF pd ne] show False by simp
  qed
  moreover have "rc = []"
  proof (rule ccontr)
    assume ne: "rc \<noteq> []"
    with stop have "rd = []" by simp
    with eq positive_total [OF pc ne] show False by simp
  qed
  ultimately show ?thesis by simp
qed

lemma settle_zero_sum:
  assumes dist: "distinct (map fst balance)" and zero: "sum_list (map snd balance) = 0"
  shows "(\<forall>p. inflow (graph_of (settle balance)) p - outflow (graph_of (settle balance)) p
               = get balance p 0)
         \<and> rest_debtors (settle balance) = [] \<and> rest_creditors (settle balance) = []"
proof -
  define I :: "'a loop_state \<Rightarrow> bool" where "I = (\<lambda>s. wf_queues s
      \<and> (\<forall>p. net_position (graph_of s) p + owed (rest_creditors s) p - owed (rest_debtors s) p
               = get balance p 0)
      \<and> sum_list (map snd (rest_creditors s)) - sum_list (map snd (rest_debtors s)) = 0)"
  let ?s0 = "(0, 0, fst (partition_balances balance), snd (partition_balances balance), DiGraph)"
  have init: "I ?s0"
    unfolding I_def
    using wf_queues_init [OF dist] owed_partition [of balance] total_partition [of balance]
    by (simp add: rest_init net_position_DiGraph owed_distinct [OF dist] zero)
  have step: "\<And>s. I s \<Longrightarrow> loop_cond s \<Longrightarrow> I (matching_step s)"
    unfolding I_def by (simp add: wf_queues_step net_position_step residual_step)
  have "I (matching_loop ?s0) \<and> \<not> loop_cond (matching_loop ?s0)"
    using init step by (rule matching_loop_rule)
  then have fin: "I (settle balance)" and stop: "\<not> loop_cond (settle balance)"
    by (simp_all add: settle_eq)
  from fin have wf: "wf_queues (settle balance)"
    and net: "\<And>p. net_position (graph_of (settle balance)) p
                 + owed (rest_creditors (settle balance)) p
                 - owed (rest_debtors (settle balance)) p = get balance p 0"
    and tot: "sum_list (map snd (rest_creditors (settle balance)))
                - sum_list (map snd (rest_debtors (settle balance))) = 0"
    by (simp_all add: I_def)
  from stop have "rest_debtors (settle balance) = [] \<or> rest_creditors (settle balance) = []"
    by (auto simp: loop_cond_rest)
  with wf tot have ex: "rest_debtors (settle balance) = [] \<and> rest_creditors (settle balance) = []"
    by (intro both_exhausted) (simp_all add: wf_queues_def)
  show ?thesis
  proof (intro conjI allI)
    fix p
    from net [of p] ex
    show "inflow (graph_of (settle balance)) p - outflow (graph_of (settle balance)) p
            = get balance p 0"
      by (simp add: net_position_def owed_Nil)
  qed (simp_all add: ex)
qed

lemma cursors_in_range_step:
  "cursors_in_range s \<Longrightarrow> loop_cond s \<Longrightarrow> cursors_in_range (matching_step s)"
  by (auto simp: cursors_in_range_def loop_cond_def matching_step_def Let_def
           split: prod.splits)

lemma settle_cursors_in_range: "cursors_in_range (settle balance)"
proof -
  let ?s0 = "(0, 0, fst (partition_balances balance), snd (partition_balances balance), DiGraph)"
  have init: "cursors_in_range ?s0" by (simp add: cursors_in_range_def)
  have "cursors_in_range (matching_loop ?s0) \<and> \<not> loop_cond (matching_loop ?s0)"
    using init cursors_in_range_step by (rule matching_loop_rule)
  then show ?thesis by (simp add: settle_eq)
qed

lemma exhausted_rest:
  "cursors_in_range s \<Longrightarrow> rest_debtors s = [] \<Longrightarrow> rest_creditors s = [] \<Longrightarrow> exhausted s"
  by (auto simp: cursors_in_range_def rest_debtors_def rest_creditors_def exhausted_def
           split: prod.splits)

text \<open>
  Claim C2. For a balance map (distinct keys) whose values sum to zero, the graph the
  matching loop builds gives every party its balance: what it receives minus what it pays
  over the edges is its balance (zero for a party that is not in the map). When the loop
  ends both cursors are at the end of their queues: every entry of both queues has been
  matched in full. (A slot behind a cursor still holds the last amount written back to
  it: the loop stores no zero.)
\<close>

theorem settlement_reproduces_balances:
  assumes dist: "distinct (map fst balance)" and zero: "sum_list (map snd balance) = 0"
  shows "(\<forall>p. inflow (graph_of (settle balance)) p - outflow (graph_of (settle balance)) p
               = get balance p 0)
         \<and> exhausted (settle balance)"
proof -
  note z = settle_zero_sum [OF dist zero]
  from z have "exhausted (settle balance)"
    by (intro exhausted_rest settle_cursors_in_range) simp_all
  with z show ?thesis by simp
qed

theorem settlement_reproduces_balances_witness:
  "distinct (map fst [(''A'', - 70), (''B'', 20), (''C'', 50 :: int)])
   \<and> sum_list (map snd [(''A'', - 70), (''B'', 20), (''C'', 50 :: int)]) = 0
   \<and> inflow (graph_of (settle [(''A'', - 70), (''B'', 20), (''C'', 50)])) ''C''
       - outflow (graph_of (settle [(''A'', - 70), (''B'', 20), (''C'', 50)])) ''C'' = 50
   \<and> exhausted (settle [(''A'', - 70), (''B'', 20), (''C'', 50)])"
proof -
  have d: "distinct (map fst [(''A'', - 70), (''B'', 20), (''C'', 50 :: int)])" by simp
  have z: "sum_list (map snd [(''A'', - 70), (''B'', 20), (''C'', 50 :: int)]) = 0" by simp
  have g: "get [(''A'', - 70), (''B'', 20), (''C'', 50 :: int)] ''C'' 0 = 50"
    by (simp add: get_def)
  from settlement_reproduces_balances [OF d z] g d z show ?thesis by simp
qed

section \<open>A bound on the settlement\<close>

lemma set_update_subset: "set (AList.update v w nb) \<subseteq> insert (v, w) (set nb)"
  by (induction nb) auto

lemma length_update_le: "length (AList.update v w nb) \<le> Suc (length nb)"
  by (induction nb) auto

lemma set_edges_map_entry:
  assumes "\<And>nb. set (f nb) \<subseteq> insert (v, w) (set nb)"
  shows "set (edges (AList.map_entry u f g)) \<subseteq> insert (u, v, w) (set (edges g))"
proof (induction g)
  case Nil
  show ?case by (simp add: edges_Nil)
next
  case (Cons e g)
  obtain n nb where e: "e = (n, nb)" by (cases e)
  from Cons assms [of nb] show ?case by (auto simp: e edges_Cons)
qed

lemma length_edges_map_entry:
  assumes "\<And>nb. length (f nb) \<le> Suc (length nb)"
  shows "length (edges (AList.map_entry u f g)) \<le> Suc (length (edges g))"
proof (induction g)
  case Nil
  show ?case by (simp add: edges_Nil)
next
  case (Cons e g)
  obtain n nb where e: "e = (n, nb)" by (cases e)
  from Cons assms [of nb] show ?case by (auto simp: e edges_Cons)
qed

lemma set_edges_add_edge:
  "set (edges (add_edge g u v w)) \<subseteq> insert (u, v, w) (set (edges g))"
  unfolding add_edge_def
  using set_edges_map_entry [of "AList.update v w" v w u "add_node (add_node g u) v",
          OF set_update_subset]
  by (simp add: edges_add_node)

lemma length_edges_add_edge:
  "length (edges (add_edge g u v w)) \<le> Suc (length (edges g))"
  unfolding add_edge_def
  using length_edges_map_entry [of "AList.update v w" u "add_node (add_node g u) v",
          OF length_update_le]
  by (simp add: edges_add_node)


lemma names_step:
  assumes lc: "loop_cond s"
  shows "fst ` set (rest_debtors (matching_step s)) \<subseteq> fst ` set (rest_debtors s)"
    and "fst ` set (rest_creditors (matching_step s)) \<subseteq> fst ` set (rest_creditors s)"
proof -
  from lc obtain d da ds c ca cs
    where rd: "rest_debtors s = (d, da) # ds" and rc: "rest_creditors s = (c, ca) # cs"
    by (auto simp: loop_cond_rest neq_Nil_conv)
  note st = matching_step_rest [OF rd rc]
  show "fst ` set (rest_debtors (matching_step s)) \<subseteq> fst ` set (rest_debtors s)"
    unfolding st rd by auto
  show "fst ` set (rest_creditors (matching_step s)) \<subseteq> fst ` set (rest_creditors s)"
    unfolding st rc by auto
qed

lemma positive_rests_step:
  assumes pr: "positive_rests s" and lc: "loop_cond s"
  shows "positive_rests (matching_step s)"
proof -
  from lc obtain d da ds c ca cs
    where rd: "rest_debtors s = (d, da) # ds" and rc: "rest_creditors s = (c, ca) # cs"
    by (auto simp: loop_cond_rest neq_Nil_conv)
  note st = matching_step_rest [OF rd rc]
  from pr show ?thesis
    unfolding positive_rests_def st rd rc by simp
qed

lemma edges_step:
  assumes lc: "loop_cond s"
  shows "\<exists>d da c ca. (d, da) \<in> set (rest_debtors s) \<and> (c, ca) \<in> set (rest_creditors s) \<and>
           set (edges (graph_of (matching_step s)))
             \<subseteq> insert (d, c, min da ca) (set (edges (graph_of s)))"
proof -
  from lc obtain d da ds c ca cs
    where rd: "rest_debtors s = (d, da) # ds" and rc: "rest_creditors s = (c, ca) # cs"
    by (auto simp: loop_cond_rest neq_Nil_conv)
  note st = matching_step_rest [OF rd rc]
  have "(d, da) \<in> set (rest_debtors s)" "(c, ca) \<in> set (rest_creditors s)"
    by (simp_all add: rd rc)
  moreover have "set (edges (graph_of (matching_step s)))
             \<subseteq> insert (d, c, min da ca) (set (edges (graph_of s)))"
    unfolding st by (rule set_edges_add_edge)
  ultimately show ?thesis by blast
qed

lemma transfers_left_step:
  assumes lc: "loop_cond s"
  shows "length (edges (graph_of (matching_step s))) + transfers_left (matching_step s)
           \<le> length (edges (graph_of s)) + transfers_left s"
proof -
  from lc obtain d da ds c ca cs
    where rd: "rest_debtors s = (d, da) # ds" and rc: "rest_creditors s = (c, ca) # cs"
    by (auto simp: loop_cond_rest neq_Nil_conv)
  note st = matching_step_rest [OF rd rc]
  have e: "length (edges (graph_of (matching_step s))) \<le> Suc (length (edges (graph_of s)))"
    unfolding st by (rule length_edges_add_edge)
  have l: "transfers_left s = Suc (length ds + length cs)"
    by (simp add: transfers_left_def rd rc)
  have "transfers_left (matching_step s) \<le> length ds + length cs"
    unfolding transfers_left_def st by auto
  with e l show ?thesis by simp
qed


lemma settle_positive_edges:
  "positive_rests (settle balance) \<and>
   (\<forall>e \<in> set (edges (graph_of (settle balance))). 0 < snd (snd e))"
proof -
  define I :: "'a loop_state \<Rightarrow> bool" where
    "I = (\<lambda>s. positive_rests s \<and> (\<forall>e \<in> set (edges (graph_of s)). 0 < snd (snd e)))"
  let ?s0 = "(0, 0, fst (partition_balances balance), snd (partition_balances balance), DiGraph)"
  have init: "I ?s0"
    unfolding I_def positive_rests_def
    using partition_positive [of balance] by (simp add: rest_init edges_def DiGraph_def)
  have step: "I (matching_step s)" if i: "I s" and lc: "loop_cond s" for s
  proof -
    from i have pr: "positive_rests s" and pe: "\<forall>e \<in> set (edges (graph_of s)). 0 < snd (snd e)"
      by (simp_all add: I_def)
    from edges_step [OF lc] obtain d da c ca
      where m: "(d, da) \<in> set (rest_debtors s)" "(c, ca) \<in> set (rest_creditors s)"
        and sub: "set (edges (graph_of (matching_step s)))
                    \<subseteq> insert (d, c, min da ca) (set (edges (graph_of s)))"
      by blast
    from pr m have "0 < da" "0 < ca" by (auto simp: positive_rests_def)
    then have "0 < min da ca" by simp
    with pe sub have "\<forall>e \<in> set (edges (graph_of (matching_step s))). 0 < snd (snd e)"
      by auto
    with positive_rests_step [OF pr lc] show ?thesis by (simp add: I_def)
  qed
  have "I (matching_loop ?s0) \<and> \<not> loop_cond (matching_loop ?s0)"
    using init step by (rule matching_loop_rule)
  then show ?thesis by (simp add: settle_eq I_def)
qed

lemma settle_edge_count:
  "length (edges (graph_of (settle balance)))
     \<le> transfers_left (0, 0, fst (partition_balances balance), snd (partition_balances balance),
                        DiGraph)"
proof -
  let ?s0 = "(0, 0, fst (partition_balances balance), snd (partition_balances balance), DiGraph)"
  define I :: "'a loop_state \<Rightarrow> bool" where
    "I = (\<lambda>s. length (edges (graph_of s)) + transfers_left s \<le> transfers_left ?s0)"
  have init: "I ?s0"
    unfolding I_def by (simp add: rest_init edges_def DiGraph_def)
  have step: "\<And>s. I s \<Longrightarrow> loop_cond s \<Longrightarrow> I (matching_step s)"
    unfolding I_def using transfers_left_step by (rule order_trans)
  have "I (matching_loop ?s0) \<and> \<not> loop_cond (matching_loop ?s0)"
    using init step by (rule matching_loop_rule)
  then show ?thesis by (simp add: settle_eq I_def)
qed

text \<open>
  Claim C6. When the balance map has at least one debtor and one creditor, the settlement
  graph has at most min(d, c) + max(d, c) - 1 transfers, for d debtors and c creditors,
  and every transfer has a positive amount. (Neither a zero total nor distinct keys are
  needed.)
\<close>

theorem transfer_count_bound:
  assumes "fst (partition_balances balance) \<noteq> []" and "snd (partition_balances balance) \<noteq> []"
  shows "length (edges (graph_of (settle balance)))
           \<le> min (length (fst (partition_balances balance)))
                  (length (snd (partition_balances balance)))
             + max (length (fst (partition_balances balance)))
                   (length (snd (partition_balances balance))) - 1
         \<and> (\<forall>(u, v, w) \<in> set (edges (graph_of (settle balance))). 0 < w)"
proof
  from assms settle_edge_count [of balance]
  show "length (edges (graph_of (settle balance)))
           \<le> min (length (fst (partition_balances balance)))
                  (length (snd (partition_balances balance)))
             + max (length (fst (partition_balances balance)))
                   (length (snd (partition_balances balance))) - 1"
    by (simp add: transfers_left_def rest_init)
  from settle_positive_edges [of balance]
  show "\<forall>(u, v, w) \<in> set (edges (graph_of (settle balance))). 0 < w"
    by auto
qed

theorem transfer_count_bound_witness:
  "fst (partition_balances [(''A'', - 70), (''B'', 20), (''C'', 50 :: int)]) \<noteq> []
   \<and> snd (partition_balances [(''A'', - 70), (''B'', 20), (''C'', 50 :: int)]) \<noteq> []
   \<and> (''A'', ''B'', 20) \<in> set (edges (graph_of (settle [(''A'', - 70), (''B'', 20), (''C'', 50)])))
   \<and> length (edges (graph_of (settle [(''A'', - 70), (''B'', 20), (''C'', 50)]))) \<le> 2
   \<and> (0::int) < 20"
proof -
  have p: "partition_balances [(''A'', - 70), (''B'', 20), (''C'', 50 :: int)]
             = ([(''A'', 70)], [(''B'', 20), (''C'', 50)])"
    by (simp add: partition_balances_def partition_step_def)
  have h1: "fst (partition_balances [(''A'', - 70), (''B'', 20), (''C'', 50 :: int)]) \<noteq> []"
    and h2: "snd (partition_balances [(''A'', - 70), (''B'', 20), (''C'', 50 :: int)]) \<noteq> []"
    by (simp_all add: p)
  have m: "(''A'', ''B'', 20) \<in> set (edges (graph_of (settle [(''A'', - 70), (''B'', 20), (''C'', 50)])))"
    by (simp add: settle_def p matching_loop.simps loop_cond_def matching_step_def add_edge_def
                  add_node_def DiGraph_def edges_def graph_of_def Let_def)
  note t = transfer_count_bound [OF h1 h2]
  from t have "length (edges (graph_of (settle [(''A'', - 70), (''B'', 20), (''C'', 50)])))
           \<le> min (length (fst (partition_balances [(''A'', - 70), (''B'', 20), (''C'', 50 :: int)])))
                  (length (snd (partition_balances [(''A'', - 70), (''B'', 20), (''C'', 50 :: int)])))
             + max (length (fst (partition_balances [(''A'', - 70), (''B'', 20), (''C'', 50 :: int)])))
                   (length (snd (partition_balances [(''A'', - 70), (''B'', 20), (''C'', 50 :: int)]))) - 1"
    by (rule conjunct1)
  then have b: "length (edges (graph_of (settle [(''A'', - 70), (''B'', 20), (''C'', 50)]))) \<le> 2"
    by (simp add: p)
  from t have "\<forall>(u, v, w) \<in> set (edges (graph_of (settle [(''A'', - 70), (''B'', 20), (''C'', 50)]))).
                 0 < w"
    by (rule conjunct2)
  from bspec [OF this m] have w: "(0::int) < 20" by simp
  from h1 h2 m b w show ?thesis by (intro conjI)
qed

section \<open>Scenarios\<close>

lemmas eval_defs = aggregate_def add_transaction_def has_edge_def add_edge_def add_node_def
  DiGraph_def edges_def optimize_transactions_floyd_warshall_def settle_def derive_balances_def
  balance_step_def get_def partition_balances_def partition_step_def graph_of_def Let_def
  matching_loop.simps loop_cond_def matching_step_def

text \<open>
  Claim C8. The two scenarios of the program's own test cases: the netting case has the
  balances A: -70, B: 20, C: 50 and settles with A paying 20 to B, then 50 to C; the
  triangle has all balances zero and settles with no transfer.
\<close>

theorem test_scenarios:
  "derive_balances (aggregate [(''A'', ''B'', 50), (''B'', ''C'', 30), (''A'', ''C'', 20)])
     = [(''A'', - 70), (''B'', 20), (''C'', 50)]
   \<and> edges (optimize_transactions_floyd_warshall
              (aggregate [(''A'', ''B'', 50), (''B'', ''C'', 30), (''A'', ''C'', 20)]))
     = [(''A'', ''B'', 20), (''A'', ''C'', 50)]
   \<and> derive_balances (aggregate [(''A'', ''B'', 100), (''B'', ''C'', 100), (''C'', ''A'', 100)])
     = [(''A'', 0), (''B'', 0), (''C'', 0)]
   \<and> edges (optimize_transactions_floyd_warshall
              (aggregate [(''A'', ''B'', 100), (''B'', ''C'', 100), (''C'', ''A'', 100)]))
     = []"
  by (simp add: eval_defs)

text \<open>
  The claim C7 as stated fails: for the obligations (A,B,1), (C,D,1), (A,E,1) the parties
  first appear in the order A, B, C, D, E, and the creditor queue is B, E, D.
\<close>

theorem queue_order_counterexample:
  "first_appearance [(''A'', ''B'', 1), (''C'', ''D'', 1), (''A'', ''E'', 1)]
     = [''A'', ''B'', ''C'', ''D'', ''E'']
   \<and> snd (partition_balances (derive_balances
            (aggregate [(''A'', ''B'', 1), (''C'', ''D'', 1), (''A'', ''E'', 1)])))
     = [(''B'', 1), (''E'', 1), (''D'', 1)]
   \<and> \<not> ordered_as (first_appearance [(''A'', ''B'', 1), (''C'', ''D'', 1), (''A'', ''E'', 1)])
         (snd (partition_balances (derive_balances
            (aggregate [(''A'', ''B'', 1), (''C'', ''D'', 1), (''A'', ''E'', 1)]))))"
  by (simp add: eval_defs first_appearance_def note_party_def ordered_as_def)


section \<open>Who takes part in the settlement\<close>

lemma settle_endpoints:
  "\<forall>e \<in> set (edges (graph_of (settle balance))).
      fst e \<in> fst ` set (fst (partition_balances balance)) \<and>
      fst (snd e) \<in> fst ` set (snd (partition_balances balance))"
proof -
  let ?D = "fst ` set (fst (partition_balances balance))"
  let ?C = "fst ` set (snd (partition_balances balance))"
  let ?s0 = "(0, 0, fst (partition_balances balance), snd (partition_balances balance), DiGraph)"
  define I :: "'a loop_state \<Rightarrow> bool" where
    "I = (\<lambda>s. fst ` set (rest_debtors s) \<subseteq> ?D \<and> fst ` set (rest_creditors s) \<subseteq> ?C \<and>
               (\<forall>e \<in> set (edges (graph_of s)). fst e \<in> ?D \<and> fst (snd e) \<in> ?C))"
  have init: "I ?s0"
    unfolding I_def by (simp add: rest_init edges_def DiGraph_def)
  have step: "I (matching_step s)" if i: "I s" and lc: "loop_cond s" for s
  proof -
    from i have sd: "fst ` set (rest_debtors s) \<subseteq> ?D" and sc: "fst ` set (rest_creditors s) \<subseteq> ?C"
      and pe: "\<forall>e \<in> set (edges (graph_of s)). fst e \<in> ?D \<and> fst (snd e) \<in> ?C"
      by (simp_all add: I_def)
    from edges_step [OF lc] obtain d da c ca
      where m: "(d, da) \<in> set (rest_debtors s)" "(c, ca) \<in> set (rest_creditors s)"
        and sub: "set (edges (graph_of (matching_step s)))
                    \<subseteq> insert (d, c, min da ca) (set (edges (graph_of s)))"
      by blast
    from m sd sc have "d \<in> ?D" "c \<in> ?C" by force+
    have dc: "d \<in> ?D" "c \<in> ?C" by fact+
    have "\<forall>e \<in> set (edges (graph_of (matching_step s))).
                        fst e \<in> ?D \<and> fst (snd e) \<in> ?C"
    proof
      fix e
      assume "e \<in> set (edges (graph_of (matching_step s)))"
      with sub have "e = (d, c, min da ca) \<or> e \<in> set (edges (graph_of s))" by blast
      then show "fst e \<in> ?D \<and> fst (snd e) \<in> ?C"
      proof
        assume "e = (d, c, min da ca)"
        with dc show ?thesis by simp
      next
        assume "e \<in> set (edges (graph_of s))"
        with pe show ?thesis by (rule bspec)
      qed
    qed
    with names_step [OF lc] sd sc show ?thesis unfolding I_def by blast
  qed
  have "I (matching_loop ?s0) \<and> \<not> loop_cond (matching_loop ?s0)"
    using init step by (rule matching_loop_rule)
  then show ?thesis by (simp add: settle_eq I_def)
qed

lemma get_distinct: "distinct (map fst balance) \<Longrightarrow> (p, a) \<in> set balance \<Longrightarrow> get balance p 0 = a"
  by (simp add: get_def)

lemma debtor_names:
  assumes "distinct (map fst balance)" and "p \<in> fst ` set (fst (partition_balances balance))"
  shows "get balance p 0 < 0"
proof -
  from assms(2) obtain a where "(p, a) \<in> set balance" "a < 0"
    by (auto simp: partition_balances_eq)
  with get_distinct [OF assms(1)] show ?thesis by simp
qed

lemma creditor_names:
  assumes "distinct (map fst balance)" and "p \<in> fst ` set (snd (partition_balances balance))"
  shows "0 < get balance p 0"
proof -
  from assms(2) obtain a where "(p, a) \<in> set balance" "0 < a"
    by (auto simp: partition_balances_eq)
  with get_distinct [OF assms(1)] show ?thesis by simp
qed

lemma optimize_endpoints:
  assumes "(u, v, w) \<in> set (edges (optimize_transactions_floyd_warshall g))"
  shows "get (derive_balances g) u 0 < 0" and "0 < get (derive_balances g) v 0"
proof -
  from assms have "(u, v, w) \<in> set (edges (graph_of (settle (derive_balances g))))"
    by (simp add: optimize_transactions_floyd_warshall_def)
  with settle_endpoints [of "derive_balances g"]
  have "fst (u, v, w) \<in> fst ` set (fst (partition_balances (derive_balances g))) \<and>
        fst (snd (u, v, w)) \<in> fst ` set (snd (partition_balances (derive_balances g)))"
    by (rule bspec)
  then have "u \<in> fst ` set (fst (partition_balances (derive_balances g)))"
    and "v \<in> fst ` set (snd (partition_balances (derive_balances g)))"
    by simp_all
  then show "get (derive_balances g) u 0 < 0" and "0 < get (derive_balances g) v 0"
    by (simp_all add: debtor_names creditor_names distinct_derive_balances)
qed

text \<open>
  Claim C9. The empty obligation list gives the empty balance map and a settlement with
  no transfer, and nothing fails. For every graph, a party whose derived balance is zero
  (or that has no balance at all) is neither the payer nor the payee of any transfer of
  the settlement.
\<close>

theorem zero_balance_in_no_transfer:
  "derive_balances (aggregate []) = []
   \<and> edges (optimize_transactions_floyd_warshall (aggregate [])) = []
   \<and> (get (derive_balances g) p 0 = 0 \<longrightarrow>
        (\<forall>(u, v, w) \<in> set (edges (optimize_transactions_floyd_warshall g)). u \<noteq> p \<and> v \<noteq> p))"
proof (intro conjI impI)
  show "derive_balances (aggregate []) = []"
    by (simp add: eval_defs)
  show "edges (optimize_transactions_floyd_warshall (aggregate [])) = []"
    by (simp add: eval_defs)
next
  assume z: "get (derive_balances g) p 0 = 0"
  show "\<forall>(u, v, w) \<in> set (edges (optimize_transactions_floyd_warshall g)). u \<noteq> p \<and> v \<noteq> p"
  proof (clarify, rule conjI)
    fix u v w
    assume e: "(u, v, w) \<in> set (edges (optimize_transactions_floyd_warshall g))"
    from optimize_endpoints(1) [OF e] z show "u \<noteq> p" by auto
    from optimize_endpoints(2) [OF e] z show "v \<noteq> p" by auto
  qed
qed


theorem zero_balance_in_no_transfer_witness:
  "get (derive_balances (aggregate [(''A'', ''B'', 10), (''B'', ''C'', 10)])) ''B'' 0 = 0
   \<and> (''A'', ''C'', 10) \<in> set (edges (optimize_transactions_floyd_warshall
                                        (aggregate [(''A'', ''B'', 10), (''B'', ''C'', 10)])))
   \<and> ''A'' \<noteq> ''B'' \<and> ''C'' \<noteq> ''B''"
proof -
  have z: "get (derive_balances (aggregate [(''A'', ''B'', 10), (''B'', ''C'', 10)])) ''B'' 0 = 0"
    by (simp add: eval_defs)
  have m: "(''A'', ''C'', 10) \<in> set (edges (optimize_transactions_floyd_warshall
                                        (aggregate [(''A'', ''B'', 10), (''B'', ''C'', 10)])))"
    by (simp add: eval_defs)
  from zero_balance_in_no_transfer
         [of "aggregate [(''A'', ''B'', 10), (''B'', ''C'', 10)]" "''B''"]
  have "get (derive_balances (aggregate [(''A'', ''B'', 10), (''B'', ''C'', 10)])) ''B'' 0 = 0 \<longrightarrow>
        (\<forall>(u, v, w) \<in> set (edges (optimize_transactions_floyd_warshall
                                  (aggregate [(''A'', ''B'', 10), (''B'', ''C'', 10)]))).
         u \<noteq> ''B'' \<and> v \<noteq> ''B'')"
    by (elim conjE)
  then have "\<forall>(u, v, w) \<in> set (edges (optimize_transactions_floyd_warshall
                                  (aggregate [(''A'', ''B'', 10), (''B'', ''C'', 10)]))).
         u \<noteq> ''B'' \<and> v \<noteq> ''B''"
    using z by (rule mp)
  from bspec [OF this m] have n: "''A'' \<noteq> ''B'' \<and> ''C'' \<noteq> ''B''" by simp
  from z m n show ?thesis by (intro conjI) (elim conjE, assumption)+
qed




lemma get_update: "get (AList.update k v al) x d = (if x = k then v else get al x d)"
  by (simp add: get_def update_conv')

lemma get_balance_step:
  "get (balance_step b (u, v, w)) x 0 =
     get b x 0 + (if x = v then w else 0) - (if x = u then w else 0)"
  by (simp add: balance_step_def Let_def get_update)

lemma get_foldl_balance_step:
  "get (foldl balance_step b es) x 0 =
     get b x 0 + sum_list (map (\<lambda>(u, v, w). w) (filter (\<lambda>(u, v, w). v = x) es))
               - sum_list (map (\<lambda>(u, v, w). w) (filter (\<lambda>(u, v, w). u = x) es))"
proof (induction es arbitrary: b)
  case Nil
  show ?case by simp
next
  case (Cons e es)
  obtain u v w where e: "e = (u, v, w)" by (cases e)
  show ?case by (simp add: e Cons.IH get_balance_step)
qed

lemma get_derive_balances: "get (derive_balances g) x 0 = net_position g x"
  unfolding derive_balances_def get_foldl_balance_step
  by (simp add: net_position_def inflow_def outflow_def get_def)

lemma optimize_preserves_net_position:
  "net_position (optimize_transactions_floyd_warshall g) p = net_position g p"
proof -
  have d: "distinct (map fst (derive_balances g))" by (rule distinct_derive_balances)
  have z: "sum_list (map snd (derive_balances g)) = 0"
    by (simp add: derive_balances_def sum_foldl_balance_step)
  from settle_zero_sum [OF d z]
  have "inflow (graph_of (settle (derive_balances g))) p
          - outflow (graph_of (settle (derive_balances g))) p = get (derive_balances g) p 0"
    by simp
  then show ?thesis
    by (simp add: optimize_transactions_floyd_warshall_def net_position_def get_derive_balances)
qed

text \<open>
  The method takes no balance map: it derives the balances from its own graph, they sum
  to zero, and so on every graph the matching loop ends with both queues exhausted.
\<close>

lemma optimize_exhausts_queues:
  "sum_list (map snd (derive_balances g)) = 0 \<and> exhausted (settle (derive_balances g))"
proof -
  have d: "distinct (map fst (derive_balances g))" by (rule distinct_derive_balances)
  have z: "sum_list (map snd (derive_balances g)) = 0"
    by (simp add: derive_balances_def sum_foldl_balance_step)
  from settle_zero_sum [OF d z] have "exhausted (settle (derive_balances g))"
    by (intro exhausted_rest settle_cursors_in_range) simp_all
  with z show ?thesis by simp
qed



section \<open>The order of the queues\<close>

lemma keys_update: "map fst (AList.update k v al) = note_party (map fst al) k"
  by (simp add: update_keys note_party_def image_iff)

lemma keys_balance_step:
  "map fst (balance_step b (u, v, w)) = note_party (note_party (map fst b) u) v"
  by (simp add: balance_step_def Let_def keys_update)

lemma keys_foldl_balance_step:
  "map fst (foldl balance_step b es) =
     foldl note_party (map fst b) (concat (map (\<lambda>(u, v, w). [u, v]) es))"
proof (induction es arbitrary: b)
  case Nil
  show ?case by simp
next
  case (Cons e es)
  obtain u v w where e: "e = (u, v, w)" by (cases e)
  show ?case by (simp add: e Cons.IH keys_balance_step)
qed

lemma keys_derive_balances: "map fst (derive_balances g) = first_appearance (edges g)"
  by (simp add: derive_balances_def first_appearance_def keys_foldl_balance_step)

lemma keys_filter_distinct:
  "distinct (map fst xs) \<Longrightarrow>
   map fst (filter P xs) = filter (\<lambda>p. p \<in> set (map fst (filter P xs))) (map fst xs)"
proof (induction xs)
  case Nil
  show ?case by simp
next
  case (Cons x xs)
  define Q where "Q = set (map fst (filter P xs))"
  from Cons.prems have notin: "fst x \<notin> fst ` set xs" and d: "distinct (map fst xs)"
    by simp_all
  have ih: "map fst (filter P xs) = filter (\<lambda>p. p \<in> Q) (map fst xs)"
    unfolding Q_def by (rule Cons.IH [OF d])
  have same: "filter (\<lambda>p. p = fst x \<or> p \<in> Q) (map fst xs) = filter (\<lambda>p. p \<in> Q) (map fst xs)"
  proof (rule filter_cong [OF refl])
    fix p
    assume "p \<in> set (map fst xs)"
    then have "p \<in> fst ` set xs" by simp
    with notin have "p \<noteq> fst x" by blast
    then show "(p = fst x \<or> p \<in> Q) = (p \<in> Q)" by simp
  qed
  have "Q \<subseteq> fst ` set xs" unfolding Q_def by auto
  with notin have out: "fst x \<notin> Q" by blast
  show ?case
  proof (cases "P x")
    case True
    then have q: "set (map fst (filter P (x # xs))) = insert (fst x) Q"
      by (simp add: Q_def)
    show ?thesis
      unfolding q using True by (simp add: same ih)
  next
    case False
    then have q: "set (map fst (filter P (x # xs))) = Q"
      by (simp add: Q_def)
    show ?thesis
      unfolding q using False out by (simp add: ih)
  qed
qed

lemma ordered_as_filter:
  "distinct (map fst xs) \<Longrightarrow> ordered_as (map fst xs) (filter P xs)"
  unfolding ordered_as_def by (rule keys_filter_distinct)

text \<open>
  Claim C7 (corrected). The keys of the balance map, and so the debtor and the creditor
  queue, are in the order in which the parties first appear in the edge sequence of the
  aggregated graph (the payer of an edge before its payee). That sequence lists the edges
  payer by payer, not obligation by obligation, so it is a function of the obligation
  list, but not the order of first appearance in that list.
\<close>

theorem queue_order:
  "map fst (derive_balances g) = first_appearance (edges g)
   \<and> ordered_as (first_appearance (edges g)) (fst (partition_balances (derive_balances g)))
   \<and> ordered_as (first_appearance (edges g)) (snd (partition_balances (derive_balances g)))"
proof (intro conjI)
  show k: "map fst (derive_balances g) = first_appearance (edges g)"
    by (rule keys_derive_balances)
  have d: "distinct (map fst (derive_balances g))" by (rule distinct_derive_balances)
  have "ordered_as (map fst (derive_balances g))
          (filter (\<lambda>(p, a). a < 0) (derive_balances g))"
    using d by (rule ordered_as_filter)
  then show "ordered_as (first_appearance (edges g))
               (fst (partition_balances (derive_balances g)))"
    unfolding ordered_as_def map_fst_debtors k .
  have "ordered_as (map fst (derive_balances g))
          (filter (\<lambda>(p, a). 0 < a) (derive_balances g))"
    using d by (rule ordered_as_filter)
  then show "ordered_as (first_appearance (edges g))
               (snd (partition_balances (derive_balances g)))"
    unfolding k by (simp add: partition_balances_eq)
qed

end
